theory Spec2Isabelle
  imports Main "HOL-Library.Multiset"
begin

section \<open>Data model of breaker.go\<close>

text \<open>
  A \<^verbatim>\<open>time.Time\<close> is modelled as an instant on one integer time line (nanoseconds),
  a \<^verbatim>\<open>time.Duration\<close> as a signed number of nanoseconds. \<^verbatim>\<open>t.Add(d)\<close>,
  \<^verbatim>\<open>t.After(u)\<close> and the comparison \<^verbatim>\<open>t != u\<close> are addition, \<open>>\<close> and \<open>\<noteq>\<close> on that line.
  Every call of \<^verbatim>\<open>time.Now()\<close> is an explicit argument \<open>now\<close> of the function that reads the clock.
\<close>

type_synonym time = int
type_synonym duration = int

definition Add :: "time \<Rightarrow> duration \<Rightarrow> time" where
  "Add t d = t + d"

definition After :: "time \<Rightarrow> time \<Rightarrow> bool" where
  "After t u = (u < t)"

datatype State = Open | HalfOpen | Closed

record Event =
  When :: time
  From :: State
  To :: State
  Reason :: string

definition ReasonManuallyReset :: string where
  "ReasonManuallyReset = ''manually reset''"

definition ReasonOpenStateExpired :: string where
  "ReasonOpenStateExpired = ''open state expired''"

definition ReasonReachThreshold :: string where
  "ReasonReachThreshold = ''reach threshold''"

definition ReasonFailedOnHalfOpenState :: string where
  "ReasonFailedOnHalfOpenState = ''failed on half-open state''"

text \<open>
  Go errors: the two sentinel errors of the package, and an error built by
  \<^verbatim>\<open>fmt.Errorf\<close> from a format and its integer arguments (the example's handler makes one).
  A value of type \<^verbatim>\<open>error\<close> is an \<open>error option\<close>, \<open>None\<close> being \<^verbatim>\<open>nil\<close>.
\<close>

datatype error = ErrIsOpen | ErrHalfOpenButExceedRequestLimit | Errorf string "int list"

text \<open>
  A panic is a value, never an unspecified result: calling a nil function value is the
  runtime panic \<open>NilFuncCall\<close>, \<^verbatim>\<open>panic(v)\<close> is \<open>PanicValue v\<close>. As the Go specification
  has it, \<^verbatim>\<open>recover()\<close> in a deferred function is non-nil exactly when a panic is passing,
  so the test \<^verbatim>\<open>e != nil\<close> of \<^verbatim>\<open>Do\<close> tells a panic from a return.
  A function that can panic returns an \<open>outcome\<close> beside the state it leaves behind.
\<close>

datatype panic_value = NilFuncCall | PanicValue string

datatype 'a outcome = Returns 'a | Panics panic_value

definition DefaultOpenStateExpiry :: duration where
  "DefaultOpenStateExpiry = 60 * 1000000000"

definition DefaultFailureThreshold :: int where
  "DefaultFailureThreshold = 100"

definition DefaultSuccessThreshold :: int where
  "DefaultSuccessThreshold = 100"

definition DefaultGenerationInterval :: duration where
  "DefaultGenerationInterval = 10 * 1000000000"

definition DefaultHalfOpenRequestLimit :: int where
  "DefaultHalfOpenRequestLimit = 200"

text \<open>
  The counters are \<^verbatim>\<open>int64\<close> in the source and unbounded integers here: a counter only grows
  by one per call and restarts at zero with every generation, so the wrap-around at \<open>2^63\<close>
  is out of reach of the executions considered.
\<close>

record Counts =
  Request :: int
  Success :: int
  Failure :: int

type_synonym StateChangeNotificationFunc = "Event \<Rightarrow> unit"
type_synonym ShouldTripFunc = "Counts \<Rightarrow> bool"

text \<open>
  A function-typed field is an \<open>option\<close>: \<open>None\<close> is the nil function value. A callback
  that is not nil is taken to return; what it does with the event is outside the breaker.
\<close>

record Option =
  GenerationInterval :: duration
  OpenStateExpiry :: duration
  FailureThreshold :: int
  SuccessThreshold :: int
  HalfOpenRequestLimit :: int
  OnStateChange :: "StateChangeNotificationFunc option"
  shouldTrip :: "ShouldTripFunc option"

text \<open>
  The breaker. The mutex is not modelled: each function below that takes the lock is one
  atomic step. The field \<open>notified\<close> is not a field of the Go struct; it is the effect of
  the calls of \<^verbatim>\<open>cb.opt.OnStateChange\<close>: the events handed to the callback, oldest first.
\<close>

record CircuitBreaker =
  opt :: Option
  state :: State
  generation :: time
  counts :: Counts
  notified :: "Event list"

section \<open>Operations of breaker.go\<close>

definition reset :: "Counts \<Rightarrow> Counts" where
  "reset c = c\<lparr>Request := 0, Success := 0, Failure := 0\<rparr>"

definition resetCounts :: "CircuitBreaker \<Rightarrow> CircuitBreaker" where
  "resetCounts cb = cb\<lparr>counts := reset (counts cb)\<rparr>"

definition moveToNextGeneration :: "CircuitBreaker \<Rightarrow> time \<Rightarrow> CircuitBreaker" where
  "moveToNextGeneration cb now =
     (let cb1 = resetCounts cb in
      case state cb1 of
        Open \<Rightarrow> cb1\<lparr>generation := Add now (OpenStateExpiry (opt cb1))\<rparr>
      | HalfOpen \<Rightarrow> cb1\<lparr>generation := Add now (GenerationInterval (opt cb1))\<rparr>
      | Closed \<Rightarrow> cb1\<lparr>generation := Add now (GenerationInterval (opt cb1))\<rparr>)"

definition changeState ::
  "CircuitBreaker \<Rightarrow> time \<Rightarrow> State \<Rightarrow> string \<Rightarrow> unit outcome \<times> CircuitBreaker" where
  "changeState cb now newState reason =
     (let current = state cb;
          cb1 = cb\<lparr>state := newState\<rparr>;
          cb2 = moveToNextGeneration cb1 now
      in case OnStateChange (opt cb2) of
           None \<Rightarrow> (Panics NilFuncCall, cb2)
         | Some f \<Rightarrow>
             (Returns (),
              cb2\<lparr>notified := notified cb2 @
                     [\<lparr>When = now, From = current, To = newState, Reason = reason\<rparr>]\<rparr>))"

definition New :: "time \<Rightarrow> Option \<Rightarrow> CircuitBreaker outcome" where
  "New now opt0 =
     (let opt1 = (if OpenStateExpiry opt0 = 0
                  then opt0\<lparr>OpenStateExpiry := DefaultOpenStateExpiry\<rparr> else opt0);
          opt2 = (if FailureThreshold opt1 = 0
                  then opt1\<lparr>FailureThreshold := DefaultFailureThreshold\<rparr> else opt1);
          opt3 = (if SuccessThreshold opt2 = 0
                  then opt2\<lparr>SuccessThreshold := DefaultSuccessThreshold\<rparr> else opt2);
          opt4 = (if GenerationInterval opt3 = 0
                  then opt3\<lparr>GenerationInterval := DefaultGenerationInterval\<rparr> else opt3);
          opt5 = (if HalfOpenRequestLimit opt4 = 0
                  then opt4\<lparr>HalfOpenRequestLimit := DefaultHalfOpenRequestLimit\<rparr> else opt4)
      in if HalfOpenRequestLimit opt5 < SuccessThreshold opt5
         then Panics (PanicValue ''half-open request limit should greater than success threshold'')
         else
           let opt6 = opt5\<lparr>shouldTrip := Some (\<lambda>c. FailureThreshold opt5 \<le> Failure c)\<rparr>;
               cb = \<lparr>opt = opt6, state = Closed, generation = now,
                     counts = \<lparr>Request = 0, Success = 0, Failure = 0\<rparr>, notified = []\<rparr>
           in Returns (moveToNextGeneration cb now))"

definition CircuitBreaker_State :: "CircuitBreaker \<Rightarrow> State" where
  "CircuitBreaker_State cb = state cb"

definition CircuitBreaker_Counts :: "CircuitBreaker \<Rightarrow> Counts" where
  "CircuitBreaker_Counts cb = counts cb"

definition Reset :: "CircuitBreaker \<Rightarrow> time \<Rightarrow> unit outcome \<times> CircuitBreaker" where
  "Reset cb now = changeState cb now Closed ReasonManuallyReset"

text \<open>
  \<^verbatim>\<open>postStartHook\<close>: the admission phase. The result is the generation token with the
  rejection error (\<open>None\<close> when the call is admitted).
\<close>

definition postStartHook ::
  "CircuitBreaker \<Rightarrow> time \<Rightarrow> (time \<times> error option) outcome \<times> CircuitBreaker" where
  "postStartHook cb now =
     (let tempState = state cb;
          checked =
            (case tempState of
               Open \<Rightarrow>
                 if After now (generation cb)
                 then changeState cb now HalfOpen ReasonOpenStateExpired
                 else (Returns (), cb)
             | HalfOpen \<Rightarrow>
                 if SuccessThreshold (opt cb) \<le> Success (counts cb)
                 then changeState cb now Closed ReasonReachThreshold
                 else (Returns (), cb)
             | Closed \<Rightarrow>
                 (case shouldTrip (opt cb) of
                    None \<Rightarrow> (Panics NilFuncCall, cb)
                  | Some trip \<Rightarrow>
                      if trip (counts cb)
                      then changeState cb now Open ReasonReachThreshold
                      else (Returns (), cb)))
      in case checked of
           (Panics e, cb1) \<Rightarrow> (Panics e, cb1)
         | (Returns _, cb1) \<Rightarrow>
             let cb2 = (if After now (generation cb1)
                        then moveToNextGeneration cb1 now else cb1)
             in if state cb2 = Open
                then (Returns (generation cb2, Some ErrIsOpen), cb2)
                else if state cb2 = HalfOpen \<and>
                        HalfOpenRequestLimit (opt cb2) < Request (counts cb2)
                then (Returns (generation cb2, Some ErrHalfOpenButExceedRequestLimit), cb2)
                else (Returns (generation cb2, None),
                      cb2\<lparr>counts := (counts cb2)\<lparr>Request := Request (counts cb2) + 1\<rparr>\<rparr>))"

text \<open>
  \<^verbatim>\<open>preStopHook\<close>: the completion phase, for the token \<open>currentGeneration\<close> and the
  outcome \<open>handleSuccess\<close>; \<open>now\<close> is the clock reading of its \<^verbatim>\<open>time.Now()\<close>.
\<close>

definition preStopHook ::
  "CircuitBreaker \<Rightarrow> time \<Rightarrow> bool \<Rightarrow> time \<Rightarrow> unit outcome \<times> CircuitBreaker" where
  "preStopHook cb currentGeneration handleSuccess now =
     (if currentGeneration \<noteq> generation cb then (Returns (), cb)
      else
        let cb1 = (if \<not> handleSuccess
                   then cb\<lparr>counts := (counts cb)\<lparr>Failure := Failure (counts cb) + 1\<rparr>\<rparr>
                   else cb\<lparr>counts := (counts cb)\<lparr>Success := Success (counts cb) + 1\<rparr>\<rparr>);
            currentState = state cb1
        in case currentState of
             HalfOpen \<Rightarrow>
               if \<not> handleSuccess
               then changeState cb1 now Open ReasonFailedOnHalfOpenState
               else (Returns (), cb1)
           | Open \<Rightarrow> (Returns (), cb1)
           | Closed \<Rightarrow> (Returns (), cb1))"

text \<open>
  The wrapped operation is a Go closure. Its run is a function of the breaker as it is when
  the operation starts and of the rest of the world \<open>'w\<close>: it returns its \<^verbatim>\<open>(interface{}, error)\<close>
  pair or panics, and leaves a breaker and a world behind. The breaker is part of what it
  can change because the lock is not held while it runs: it may call the breaker itself,
  and other goroutines may pass through the breaker in the meantime.
  An \<^verbatim>\<open>interface{}\<close> result is an \<open>'r option\<close>, \<open>None\<close> being \<^verbatim>\<open>nil\<close>.
\<close>

type_synonym ('r, 'w) HandleFunc =
  "CircuitBreaker \<Rightarrow> 'w \<Rightarrow> ('r option \<times> error option) outcome \<times> CircuitBreaker \<times> 'w"

text \<open>
  \<^verbatim>\<open>Do\<close>: \<open>now1\<close> is the clock reading of the admission phase, \<open>now2\<close> the one of the
  completion phase. The deferred function runs \<^verbatim>\<open>preStopHook(g, false)\<close> whenever a panic
  passes through it, also a panic of the \<^verbatim>\<open>preStopHook\<close> call of the normal path, and
  raises the recovered value again unless that call panics itself.
\<close>

definition recovered ::
  "CircuitBreaker \<Rightarrow> time \<Rightarrow> panic_value \<Rightarrow> time \<Rightarrow> 'a outcome \<times> CircuitBreaker" where
  "recovered cb g e now =
     (case preStopHook cb g False now of
        (Panics e', cb') \<Rightarrow> (Panics e', cb')
      | (Returns _, cb') \<Rightarrow> (Panics e, cb'))"

definition Do ::
  "CircuitBreaker \<Rightarrow> time \<Rightarrow> time \<Rightarrow> ('r, 'w) HandleFunc \<Rightarrow> 'w \<Rightarrow>
     ('r option \<times> error option) outcome \<times> CircuitBreaker \<times> 'w" where
  "Do cb now1 now2 handle w =
     (case postStartHook cb now1 of
        (Panics e, cb1) \<Rightarrow> (Panics e, cb1, w)
      | (Returns (gen, Some err), cb1) \<Rightarrow> (Returns (None, Some err), cb1, w)
      | (Returns (gen, None), cb1) \<Rightarrow>
          (case handle cb1 w of
             (Panics e, cb2, w') \<Rightarrow>
               (case recovered cb2 gen e now2 of (r, cb3) \<Rightarrow> (r, cb3, w'))
           | (Returns (resp, err), cb2, w') \<Rightarrow>
               (case preStopHook cb2 gen (err = None) now2 of
                  (Returns _, cb3) \<Rightarrow> (Returns (resp, err), cb3, w')
                | (Panics e, cb3) \<Rightarrow>
                    (case recovered cb3 gen e now2 of (r, cb4) \<Rightarrow> (r, cb4, w')))))"

section \<open>The caller of example/response.go\<close>

text \<open>
  The handler of the example's \<^verbatim>\<open>do\<close>: it touches neither the breaker nor the world and
  returns \<^verbatim>\<open>(nil, nil)\<close> or \<^verbatim>\<open>(nil, fmt.Errorf("manual error times: %d", i))\<close>.
\<close>

definition handler :: "bool \<Rightarrow> int \<Rightarrow> (unit, 'w) HandleFunc" where
  "handler success i cb w =
     (if success then (Returns (None, None), cb, w)
      else (Returns (None, Some (Errorf ''manual error times: %d'' [i])), cb, w))"

text \<open>
  \<^verbatim>\<open>do(success, times)\<close>: the loop \<^verbatim>\<open>for i := 1; i <= times; i++\<close> around \<^verbatim>\<open>bk.Do\<close>.
  The clock is the list of the readings \<open>(now1, now2)\<close> of the iterations, one pair for each
  iteration, so \<open>times\<close> is its length. Each printed line is the tuple of the index, the
  counts, the state and the error of the call. A panic of \<^verbatim>\<open>Do\<close> ends the loop.
\<close>

type_synonym line = "int \<times> Counts \<times> State \<times> error option"

fun do_loop ::
  "int \<Rightarrow> bool \<Rightarrow> (time \<times> time) list \<Rightarrow> CircuitBreaker \<Rightarrow>
     line list \<times> panic_value option \<times> CircuitBreaker" where
  "do_loop i success [] bk = ([], None, bk)"
| "do_loop i success ((now1, now2) # clock) bk =
     (case Do bk now1 now2 (handler success i) () of
        (Panics e, bk', _) \<Rightarrow> ([], Some e, bk')
      | (Returns (_, err), bk', _) \<Rightarrow>
          (case do_loop (i + 1) success clock bk' of
             (lines, p, bk'') \<Rightarrow>
               ((i, CircuitBreaker_Counts bk', CircuitBreaker_State bk', err) # lines, p, bk'')))"

definition do_example ::
  "bool \<Rightarrow> (time \<times> time) list \<Rightarrow> CircuitBreaker \<Rightarrow>
     line list \<times> panic_value option \<times> CircuitBreaker" where
  "do_example success clock bk = do_loop 1 success clock bk"


text \<open>
  \<^verbatim>\<open>onChange\<close> only prints the event. \<open>init_opt\<close> is the configuration built by
  \<^verbatim>\<open>init()\<close>, the durations in nanoseconds.
\<close>

definition onChange :: StateChangeNotificationFunc where
  "onChange ev = ()"

definition init_opt :: Option where
  "init_opt =
     \<lparr>GenerationInterval = 2 * 1000000000,
      OpenStateExpiry = 2 * 1000000000,
      FailureThreshold = 3,
      SuccessThreshold = 5,
      HalfOpenRequestLimit = 10,
      OnStateChange = Some onChange,
      shouldTrip = None\<rparr>"

text \<open>
  Three breakers met while the example runs with the first clock reading at 0: the one
  \<^verbatim>\<open>New\<close> builds from \<open>init_opt\<close>, the tripped one (three failing calls, the fourth call
  at instant 40), and the half-open one after the expiry (reached at instant 3000000000)
  with \<open>n\<close> probes admitted and succeeded.
\<close>

definition example_bk :: CircuitBreaker where
  "example_bk =
     \<lparr>opt = init_opt\<lparr>shouldTrip := Some (\<lambda>c. 3 \<le> Failure c)\<rparr>,
      state = Closed,
      generation = 2000000000,
      counts = \<lparr>Request = 0, Success = 0, Failure = 0\<rparr>,
      notified = []\<rparr>"

definition example_open_bk :: CircuitBreaker where
  "example_open_bk =
     example_bk\<lparr>state := Open, generation := 2000000040,
       notified := [\<lparr>When = 40, From = Closed, To = Open, Reason = ''reach threshold''\<rparr>]\<rparr>"

definition example_halfopen_bk :: "int \<Rightarrow> CircuitBreaker" where
  "example_halfopen_bk n =
     example_bk\<lparr>state := HalfOpen, generation := 5000000000,
       counts := \<lparr>Request = n, Success = n, Failure = 0\<rparr>,
       notified :=
         [\<lparr>When = 40, From = Closed, To = Open, Reason = ''reach threshold''\<rparr>,
          \<lparr>When = 3000000000, From = Open, To = HalfOpen, Reason = ''open state expired''\<rparr>]\<rparr>"

text \<open>A handler that panics with the value \<open>v\<close> and touches nothing.\<close>

definition panicking :: "string \<Rightarrow> ('r, 'w) HandleFunc" where
  "panicking v cb w = (Panics (PanicValue v), cb, w)"

text \<open>
  Further breakers and configurations used as concrete inputs: the example's breaker built
  with a nil \<^verbatim>\<open>OnStateChange\<close>, a configuration with all thresholds at one, and a
  configuration whose open-state expiry is shorter than its generation interval.
\<close>

definition nil_sink_bk :: CircuitBreaker where
  "nil_sink_bk = example_bk\<lparr>opt := (opt example_bk)\<lparr>OnStateChange := None\<rparr>\<rparr>"

definition probe_opt :: Option where
  "probe_opt =
     init_opt\<lparr>FailureThreshold := 1, SuccessThreshold := 1, HalfOpenRequestLimit := 1\<rparr>"

definition collide_opt :: Option where
  "collide_opt =
     init_opt\<lparr>GenerationInterval := 10 * 1000000000, OpenStateExpiry := 5 * 1000000000,
       FailureThreshold := 1\<rparr>"

section \<open>Executions with calls in flight\<close>

text \<open>
  The property of the counts that the generations are meant to keep.
\<close>

definition counts_invariant :: "CircuitBreaker \<Rightarrow> bool" where
  "counts_invariant cb \<longleftrightarrow>
     0 \<le> Request (counts cb) \<and> 0 \<le> Success (counts cb) \<and> 0 \<le> Failure (counts cb) \<and>
     Success (counts cb) + Failure (counts cb) \<le> Request (counts cb)"

text \<open>
  \<open>renews_at_admission\<close> is the condition under which \<^verbatim>\<open>postStartHook\<close> calls
  \<^verbatim>\<open>moveToNextGeneration\<close> (through \<^verbatim>\<open>changeState\<close> or for an expired generation).
  \<open>held r\<close> is the token a call holds after the admission result \<open>r\<close>.
\<close>

definition renews_at_admission :: "CircuitBreaker \<Rightarrow> time \<Rightarrow> bool" where
  "renews_at_admission cb now \<longleftrightarrow>
     (case state cb of
        Open \<Rightarrow> After now (generation cb)
      | HalfOpen \<Rightarrow> SuccessThreshold (opt cb) \<le> Success (counts cb) \<or> After now (generation cb)
      | Closed \<Rightarrow>
          (case shouldTrip (opt cb) of
             None \<Rightarrow> False
           | Some trip \<Rightarrow> trip (counts cb) \<or> After now (generation cb)))"

definition held :: "(time \<times> error option) outcome \<Rightarrow> time multiset" where
  "held r = (case r of Returns (g, None) \<Rightarrow> {#g#} | Returns (g, Some e) \<Rightarrow> {#} | Panics e \<Rightarrow> {#})"

text \<open>
  \<open>running F cb\<close>: the breaker \<open>cb\<close> is reached from \<^verbatim>\<open>New\<close> by admissions, completions
  and resets in any interleaving, \<open>F\<close> being the tokens of the admitted calls that have not
  completed. A completion that panics keeps its token, since \<^verbatim>\<open>Do\<close> then completes once
  more. The side conditions say that tokens do not collide: whenever a step starts a
  generation, no call in flight holds the new generation's instant as its token.
\<close>

inductive running :: "time multiset \<Rightarrow> CircuitBreaker \<Rightarrow> bool" where
  built: "New now opt0 = Returns cb \<Longrightarrow> running {#} cb"
| admission:
    "running F cb \<Longrightarrow> postStartHook cb now = (r, cb') \<Longrightarrow>
     (renews_at_admission cb now \<longrightarrow> generation cb' \<notin># F) \<Longrightarrow>
     running (F + held r) cb'"
| completion:
    "running F cb \<Longrightarrow> g \<in># F \<Longrightarrow> preStopHook cb g ok now = (r, cb') \<Longrightarrow>
     F' = (if r = Returns () then F - {#g#} else F) \<Longrightarrow>
     (state cb' \<noteq> state cb \<longrightarrow> generation cb' \<notin># F') \<Longrightarrow>
     running F' cb'"
| reset:
    "running F cb \<Longrightarrow> Reset cb now = (r, cb') \<Longrightarrow> generation cb' \<notin># F \<Longrightarrow>
     running F cb'"

text \<open>\<open>accounted\<close>: the calls in flight of the current generation are requests not yet counted as outcomes.\<close>

definition accounted :: "time multiset \<Rightarrow> CircuitBreaker \<Rightarrow> bool" where
  "accounted F cb \<longleftrightarrow>
     0 \<le> Success (counts cb) \<and> 0 \<le> Failure (counts cb) \<and>
     Success (counts cb) + Failure (counts cb) + int (count F (generation cb))
       \<le> Request (counts cb)"

section \<open>What the operations compute\<close>


lemma moveToNextGeneration_eq:
  "moveToNextGeneration cb now =
     cb\<lparr>counts := \<lparr>Request = 0, Success = 0, Failure = 0\<rparr>,
        generation := now + (if state cb = Open then OpenStateExpiry (opt cb)
                             else GenerationInterval (opt cb))\<rparr>"
  by (cases "state cb") (simp_all add: moveToNextGeneration_def resetCounts_def reset_def Add_def)

lemma changeState_notify:
  assumes "OnStateChange (opt cb) = Some f"
  shows "changeState cb now st reason =
     (Returns (),
      cb\<lparr>state := st,
         counts := \<lparr>Request = 0, Success = 0, Failure = 0\<rparr>,
         generation := now + (if st = Open then OpenStateExpiry (opt cb)
                              else GenerationInterval (opt cb)),
         notified := notified cb @ [\<lparr>When = now, From = state cb, To = st, Reason = reason\<rparr>]\<rparr>)"
  using assms by (simp add: changeState_def moveToNextGeneration_eq)

lemma changeState_nil:
  assumes "OnStateChange (opt cb) = None"
  shows "changeState cb now st reason =
     (Panics NilFuncCall,
      cb\<lparr>state := st,
         counts := \<lparr>Request = 0, Success = 0, Failure = 0\<rparr>,
         generation := now + (if st = Open then OpenStateExpiry (opt cb)
                              else GenerationInterval (opt cb))\<rparr>)"
  using assms by (simp add: changeState_def moveToNextGeneration_eq)

lemma postStartHook_open_waiting:
  assumes "state cb = Open" "\<not> After now (generation cb)"
  shows "postStartHook cb now = (Returns (generation cb, Some ErrIsOpen), cb)"
  using assms by (simp add: postStartHook_def)

lemma Do_open_waiting:
  assumes "state cb = Open" "\<not> After now (generation cb)"
  shows "Do cb now now2 handle w = (Returns (None, Some ErrIsOpen), cb, w)"
  using assms by (simp add: Do_def postStartHook_open_waiting)


lemma postStartHook_closed_trip:
  assumes "state cb = Closed" "shouldTrip (opt cb) = Some trip" "trip (counts cb)"
    "OnStateChange (opt cb) = Some f"
  shows "postStartHook cb now =
     (Returns (now + OpenStateExpiry (opt cb), Some ErrIsOpen),
      cb\<lparr>state := Open,
         counts := \<lparr>Request = 0, Success = 0, Failure = 0\<rparr>,
         generation := now + OpenStateExpiry (opt cb),
         notified := notified cb @
           [\<lparr>When = now, From = Closed, To = Open, Reason = ReasonReachThreshold\<rparr>]\<rparr>)"
  using assms
  by (simp add: postStartHook_def changeState_notify moveToNextGeneration_eq Let_def After_def)

lemma postStartHook_closed_admit:
  assumes "state cb = Closed" "shouldTrip (opt cb) = Some trip" "\<not> trip (counts cb)"
    "\<not> After now (generation cb)"
  shows "postStartHook cb now =
     (Returns (generation cb, None),
      cb\<lparr>counts := (counts cb)\<lparr>Request := Request (counts cb) + 1\<rparr>\<rparr>)"
  using assms by (simp add: postStartHook_def)

lemma postStartHook_halfopen_close:
  assumes "state cb = HalfOpen" "SuccessThreshold (opt cb) \<le> Success (counts cb)"
    "OnStateChange (opt cb) = Some f"
  shows "postStartHook cb now =
     (Returns (now + GenerationInterval (opt cb), None),
      cb\<lparr>state := Closed,
         counts := \<lparr>Request = 1, Success = 0, Failure = 0\<rparr>,
         generation := now + GenerationInterval (opt cb),
         notified := notified cb @
           [\<lparr>When = now, From = HalfOpen, To = Closed, Reason = ReasonReachThreshold\<rparr>]\<rparr>)"
  using assms
  by (simp add: postStartHook_def changeState_notify moveToNextGeneration_eq Let_def After_def)

lemma preStopHook_halfopen_failure:
  assumes "state cb = HalfOpen"
  shows "preStopHook cb (generation cb) False now =
           changeState (cb\<lparr>counts := (counts cb)\<lparr>Failure := Failure (counts cb) + 1\<rparr>\<rparr>)
             now Open ReasonFailedOnHalfOpenState"
  using assms by (simp add: preStopHook_def)

lemma preStopHook_no_panic:
  assumes "OnStateChange (opt cb) = Some f"
  shows "fst (preStopHook cb g ok now) = Returns ()"
  using assms by (cases "state cb") (simp_all add: preStopHook_def changeState_notify)

lemma Do_closed_trip:
  assumes "state cb = Closed" "shouldTrip (opt cb) = Some trip" "trip (counts cb)"
    "OnStateChange (opt cb) = Some f"
  shows "Do cb now now2 handle w =
     (Returns (None, Some ErrIsOpen),
      cb\<lparr>state := Open,
         counts := \<lparr>Request = 0, Success = 0, Failure = 0\<rparr>,
         generation := now + OpenStateExpiry (opt cb),
         notified := notified cb @
           [\<lparr>When = now, From = Closed, To = Open, Reason = ReasonReachThreshold\<rparr>]\<rparr>, w)"
  using assms by (simp add: Do_def postStartHook_closed_trip)

lemma Do_closed_failure:
  assumes "state cb = Closed" "shouldTrip (opt cb) = Some trip" "\<not> trip (counts cb)"
    "\<not> After now (generation cb)"
  shows "Do cb now now2 (handler False i) w =
     (Returns (None, Some (Errorf ''manual error times: %d'' [i])),
      cb\<lparr>counts := (counts cb)\<lparr>Request := Request (counts cb) + 1,
                                Failure := Failure (counts cb) + 1\<rparr>\<rparr>, w)"
  using assms by (simp add: Do_def postStartHook_closed_admit handler_def preStopHook_def)


lemma do_loop_append:
  "do_loop i success (xs @ ys) bk =
     (case do_loop i success xs bk of
        (lines1, Some e, bk1) \<Rightarrow> (lines1, Some e, bk1)
      | (lines1, None, bk1) \<Rightarrow>
          (case do_loop (i + int (length xs)) success ys bk1 of
             (lines2, p, bk2) \<Rightarrow> (lines1 @ lines2, p, bk2)))"
proof (induction xs arbitrary: i bk)
  case Nil
  show ?case by (simp split: prod.splits)
next
  case (Cons x xs)
  obtain now1 now2 where x: "x = (now1, now2)" by (cases x)
  have shift: "i + 1 + int (length xs) = i + (1 + int (length xs))" by simp
  show ?case
    unfolding x
    by (simp add: Cons.IH shift split: prod.splits outcome.splits option.splits)
qed

lemma do_loop_closed_failures:
  assumes "state bk = Closed"
    and "shouldTrip (opt bk) = Some (\<lambda>c. T \<le> Failure c)"
    and "Failure (counts bk) + int (length clock) \<le> T"
    and "\<forall>(now1, now2) \<in> set clock. \<not> After now1 (generation bk)"
  shows "\<exists>lines. do_loop i False clock bk =
           (lines, None,
            bk\<lparr>counts := (counts bk)\<lparr>Request := Request (counts bk) + int (length clock),
                                      Failure := Failure (counts bk) + int (length clock)\<rparr>\<rparr>)
         \<and> map (\<lambda>(i, c, s, e). s) lines = replicate (length clock) Closed
         \<and> map (\<lambda>(i, c, s, e). e = Some ErrIsOpen) lines = replicate (length clock) False"
  using assms
proof (induction clock arbitrary: i bk)
  case Nil
  show ?case by simp
next
  case (Cons x clock)
  obtain now1 now2 where x: "x = (now1, now2)" by (cases x)
  let ?bk1 = "bk\<lparr>counts := (counts bk)\<lparr>Request := Request (counts bk) + 1,
                                         Failure := Failure (counts bk) + 1\<rparr>\<rparr>"
  have below: "\<not> T \<le> Failure (counts bk)" using Cons.prems(3) by simp
  have inside: "\<not> After now1 (generation bk)" using Cons.prems(4) x by simp
  have step: "Do bk now1 now2 (handler False i) () =
      (Returns (None, Some (Errorf ''manual error times: %d'' [i])), ?bk1, ())"
    using Do_closed_failure [OF Cons.prems(1) Cons.prems(2) below inside] .
  have "\<exists>lines. do_loop (i + 1) False clock ?bk1 =
           (lines, None,
            ?bk1\<lparr>counts := (counts ?bk1)\<lparr>Request := Request (counts ?bk1) + int (length clock),
                                      Failure := Failure (counts ?bk1) + int (length clock)\<rparr>\<rparr>)
         \<and> map (\<lambda>(i, c, s, e). s) lines = replicate (length clock) Closed
         \<and> map (\<lambda>(i, c, s, e). e = Some ErrIsOpen) lines = replicate (length clock) False"
    using Cons.prems by (intro Cons.IH) simp_all
  then obtain lines where rest: "do_loop (i + 1) False clock ?bk1 =
           (lines, None,
            ?bk1\<lparr>counts := (counts ?bk1)\<lparr>Request := Request (counts ?bk1) + int (length clock),
                                      Failure := Failure (counts ?bk1) + int (length clock)\<rparr>\<rparr>)"
      and st: "map (\<lambda>(i, c, s, e). s) lines = replicate (length clock) Closed"
      and er: "map (\<lambda>(i, c, s, e). e = Some ErrIsOpen) lines = replicate (length clock) False"
    by blast
  show ?case
    unfolding x
    by (simp add: step rest st er CircuitBreaker_State_def Cons.prems(1) add.assoc)
qed

lemma do_loop_open_waiting:
  assumes "state bk = Open"
    and "\<forall>(now1, now2) \<in> set clock. \<not> After now1 (generation bk)"
  shows "\<exists>lines. do_loop i success clock bk = (lines, None, bk)
         \<and> map (\<lambda>(i, c, s, e). s) lines = replicate (length clock) Open
         \<and> map (\<lambda>(i, c, s, e). e = Some ErrIsOpen) lines = replicate (length clock) True"
  using assms
proof (induction clock arbitrary: i)
  case Nil
  show ?case by simp
next
  case (Cons x clock)
  obtain now1 now2 where x: "x = (now1, now2)" by (cases x)
  have waiting: "\<not> After now1 (generation bk)" using Cons.prems(2) x by simp
  have step: "Do bk now1 now2 (handler success i) () = (Returns (None, Some ErrIsOpen), bk, ())"
    using Do_open_waiting [OF Cons.prems(1) waiting] .
  obtain lines where rest: "do_loop (i + 1) success clock bk = (lines, None, bk)"
      and st: "map (\<lambda>(i, c, s, e). s) lines = replicate (length clock) Open"
      and er: "map (\<lambda>(i, c, s, e). e = Some ErrIsOpen) lines = replicate (length clock) True"
    using Cons.IH [of "i + 1"] Cons.prems by auto
  show ?case
    unfolding x
    by (simp add: step rest st er CircuitBreaker_State_def Cons.prems(1))
qed

lemma preStopHook_returns:
  assumes "OnStateChange (opt cb) \<noteq> None \<or> state cb \<noteq> HalfOpen"
  shows "fst (preStopHook cb g ok now) = Returns ()"
proof (cases "state cb = HalfOpen")
  case True
  with assms obtain f where "OnStateChange (opt cb) = Some f" by blast
  then show ?thesis by (rule preStopHook_no_panic)
next
  case False
  then show ?thesis by (cases "state cb") (simp_all add: preStopHook_def)
qed

lemma Do_panics_at_admission:
  assumes "fst (postStartHook cb now) = Panics e"
  shows "fst (Do cb now now2 handle w) = Panics e"
  using assms by (cases "postStartHook cb now") (simp add: Do_def)

lemma recovered_after_open:
  assumes "state cb = Open"
  shows "fst (recovered cb g e now :: 'a outcome \<times> CircuitBreaker) = Panics e"
  using assms by (simp add: recovered_def preStopHook_def)

lemma Do_halfopen_over_limit:
  assumes "state cb = HalfOpen" "Success (counts cb) < SuccessThreshold (opt cb)"
    "\<not> After now (generation cb)" "HalfOpenRequestLimit (opt cb) < Request (counts cb)"
  shows "Do cb now now2 handle w = (Returns (None, Some ErrHalfOpenButExceedRequestLimit), cb, w)"
  using assms by (simp add: Do_def postStartHook_def)

lemma recovered_panics:
  "\<exists>e'. fst (recovered cb g e now :: 'a outcome \<times> CircuitBreaker) = Panics e'"
  by (cases "preStopHook cb g False now"; cases "fst (preStopHook cb g False now)")
     (auto simp add: recovered_def)

lemma Do_admitted_outcome:
  assumes "postStartHook cb now1 = (Returns (gen, None), cb1)"
    and "handle cb1 w = (out, cb2, w')"
  shows "fst (Do cb now1 now2 handle w) = out \<or> (\<exists>e'. fst (Do cb now1 now2 handle w) = Panics e')"
proof (cases out)
  case (Returns pair)
  obtain resp err where pair: "pair = (resp, err)" by (cases pair)
  obtain r cb3 where stop: "preStopHook cb2 gen (err = None) now2 = (r, cb3)"
    by (cases "preStopHook cb2 gen (err = None) now2")
  show ?thesis
  proof (cases r)
    case (Returns u)
    with stop show ?thesis
      by (simp add: Do_def assms \<open>out = Returns pair\<close> pair)
  next
    case (Panics e)
    obtain r' cb4 where again:
        "(recovered cb3 gen e now2 :: ('a option \<times> error option) outcome \<times> CircuitBreaker)
           = (r', cb4)"
      by (cases "recovered cb3 gen e now2
           :: ('a option \<times> error option) outcome \<times> CircuitBreaker")
    moreover have "\<exists>e'. fst (recovered cb3 gen e now2
           :: ('a option \<times> error option) outcome \<times> CircuitBreaker) = Panics e'"
      by (rule recovered_panics)
    ultimately obtain e' where "r' = Panics e'" by auto
    with stop Panics again show ?thesis
      by (simp add: Do_def assms \<open>out = Returns pair\<close> pair)
  qed
next
  case (Panics e)
  obtain r' cb3 where again:
      "(recovered cb2 gen e now2 :: ('a option \<times> error option) outcome \<times> CircuitBreaker)
         = (r', cb3)"
    by (cases "recovered cb2 gen e now2
         :: ('a option \<times> error option) outcome \<times> CircuitBreaker")
  moreover have "\<exists>e'. fst (recovered cb2 gen e now2
         :: ('a option \<times> error option) outcome \<times> CircuitBreaker) = Panics e'"
    by (rule recovered_panics)
  ultimately obtain e' where "r' = Panics e'" by auto
  with again show ?thesis
    by (simp add: Do_def assms Panics)
qed

subsection \<open>The example's breakers are reached\<close>

lemma example_bk_built: "New 0 init_opt = Returns example_bk"
  by (simp add: New_def init_opt_def example_bk_def moveToNextGeneration_eq)

lemma example_open_bk_reached:
  "snd (do_example False [(10, 11), (20, 21), (30, 31), (40, 41)] example_bk)
     = (None, example_open_bk)"
  by (simp add: do_example_def Do_def postStartHook_def preStopHook_def handler_def
        changeState_def moveToNextGeneration_eq After_def example_bk_def example_open_bk_def
        init_opt_def ReasonReachThreshold_def)

lemma example_halfopen_bk_reached:
  "snd (do_example True [(3000000000, 3000000001), (3000000002, 3000000003)] example_open_bk)
     = (None, example_halfopen_bk 2)"
  by (simp add: do_example_def Do_def postStartHook_def preStopHook_def handler_def
        changeState_def moveToNextGeneration_eq After_def example_bk_def example_open_bk_def
        example_halfopen_bk_def init_opt_def ReasonOpenStateExpired_def)

subsection \<open>The counts when tokens do not collide\<close>

lemma changeState_counts:
  "counts (snd (changeState cb now st reason)) = \<lparr>Request = 0, Success = 0, Failure = 0\<rparr>"
  by (cases "OnStateChange (opt cb)") (simp_all add: changeState_nil changeState_notify)

lemma changeState_state:
  "state (snd (changeState cb now st reason)) = st"
  by (cases "OnStateChange (opt cb)") (simp_all add: changeState_nil changeState_notify)

lemma postStartHook_keeps:
  assumes "\<not> renews_at_admission cb now"
  shows "postStartHook cb now =
     (case state cb of
        Open \<Rightarrow> (Returns (generation cb, Some ErrIsOpen), cb)
      | HalfOpen \<Rightarrow>
          if HalfOpenRequestLimit (opt cb) < Request (counts cb)
          then (Returns (generation cb, Some ErrHalfOpenButExceedRequestLimit), cb)
          else (Returns (generation cb, None),
                cb\<lparr>counts := (counts cb)\<lparr>Request := Request (counts cb) + 1\<rparr>\<rparr>)
      | Closed \<Rightarrow>
          (case shouldTrip (opt cb) of
             None \<Rightarrow> (Panics NilFuncCall, cb)
           | Some trip \<Rightarrow>
               (Returns (generation cb, None),
                cb\<lparr>counts := (counts cb)\<lparr>Request := Request (counts cb) + 1\<rparr>\<rparr>)))"
  using assms
  by (cases "state cb")
     (auto simp add: renews_at_admission_def postStartHook_def split: option.splits)

lemma postStartHook_renews:
  assumes "renews_at_admission cb now" "postStartHook cb now = (r, cb')"
  shows "(r = Returns (generation cb', None) \<and>
            counts cb' = \<lparr>Request = 1, Success = 0, Failure = 0\<rparr>)
       \<or> (((\<exists>e. r = Returns (generation cb', Some e)) \<or> (\<exists>p. r = Panics p)) \<and>
            counts cb' = \<lparr>Request = 0, Success = 0, Failure = 0\<rparr>)"
proof (cases "OnStateChange (opt cb)")
  case None
  show ?thesis
    using assms
    by (cases "state cb")
       (auto simp add: renews_at_admission_def postStartHook_def changeState_nil [OF None]
          moveToNextGeneration_eq Let_def split: option.splits if_splits)
next
  case (Some f)
  show ?thesis
    using assms
    by (cases "state cb")
       (auto simp add: renews_at_admission_def postStartHook_def changeState_notify [OF Some]
          moveToNextGeneration_eq Let_def After_def split: option.splits if_splits)
qed

lemma accounted_admission:
  assumes "accounted F cb" "postStartHook cb now = (r, cb')"
    and "renews_at_admission cb now \<longrightarrow> generation cb' \<notin># F"
  shows "accounted (F + held r) cb'"
proof (cases "renews_at_admission cb now")
  case True
  then have fresh: "count F (generation cb') = 0"
    using assms(3) by (simp add: count_eq_zero_iff)
  from postStartHook_renews [OF True assms(2)] show ?thesis
    using fresh by (auto simp add: accounted_def held_def)
next
  case False
  from postStartHook_keeps [OF False] assms(1) assms(2) show ?thesis
    by (cases "state cb")
       (auto simp add: accounted_def held_def split: option.splits if_splits)
qed

lemma accounted_completion:
  assumes "accounted F cb" "g \<in># F" "preStopHook cb g ok now = (r, cb')"
    and "F' = (if r = Returns () then F - {#g#} else F)"
    and "state cb' \<noteq> state cb \<longrightarrow> generation cb' \<notin># F'"
  shows "accounted F' cb'"
proof (cases "g = generation cb")
  case False
  then have "r = Returns ()" "cb' = cb"
    using assms(3) by (simp_all add: preStopHook_def)
  then show ?thesis
    using assms(1) assms(4) False by (simp add: accounted_def)
next
  case True
  have pending: "1 \<le> count F (generation cb)"
    using assms(2) True by (simp add: Suc_le_eq)
  show ?thesis
  proof (cases "state cb = HalfOpen \<and> \<not> ok")
    case False
    then have "r = Returns ()"
      and "generation cb' = generation cb"
      and "Request (counts cb') = Request (counts cb)"
      and "Success (counts cb') + Failure (counts cb') =
             Success (counts cb) + Failure (counts cb) + 1"
      and "Success (counts cb) \<le> Success (counts cb')"
      and "Failure (counts cb) \<le> Failure (counts cb')"
      using assms(3) True
      by (cases "state cb"; cases ok; simp add: preStopHook_def; fastforce)+
    then show ?thesis
      using assms(1) assms(4) pending True by (simp add: accounted_def)
  next
    case probe: True
    then have res: "(r, cb') =
        changeState (cb\<lparr>counts := (counts cb)\<lparr>Failure := Failure (counts cb) + 1\<rparr>\<rparr>)
          now Open ReasonFailedOnHalfOpenState"
      using assms(3) True by (simp add: preStopHook_halfopen_failure)
    have zero: "counts cb' = \<lparr>Request = 0, Success = 0, Failure = 0\<rparr>"
      using changeState_counts [of "cb\<lparr>counts := (counts cb)\<lparr>Failure := Failure (counts cb) + 1\<rparr>\<rparr>"
          now Open ReasonFailedOnHalfOpenState] res [symmetric] by simp
    have "state cb' = Open"
      using changeState_state [of "cb\<lparr>counts := (counts cb)\<lparr>Failure := Failure (counts cb) + 1\<rparr>\<rparr>"
          now Open ReasonFailedOnHalfOpenState] res [symmetric] by simp
    then have "generation cb' \<notin># F'"
      using assms(5) probe by simp
    then have "count F' (generation cb') = 0"
      by (simp add: count_eq_zero_iff)
    then show ?thesis
      using zero by (simp add: accounted_def)
  qed
qed

lemma accounted_reset:
  assumes "Reset cb now = (r, cb')" "generation cb' \<notin># F"
  shows "accounted F cb'"
proof -
  have "counts cb' = \<lparr>Request = 0, Success = 0, Failure = 0\<rparr>"
    using changeState_counts [of cb now Closed ReasonManuallyReset] assms(1)
    by (simp add: Reset_def)
  moreover have "count F (generation cb') = 0"
    using assms(2) by (simp add: count_eq_zero_iff)
  ultimately show ?thesis by (simp add: accounted_def)
qed

lemma accounted_built:
  assumes "New now opt0 = Returns cb"
  shows "accounted {#} cb"
  using assms
  by (auto simp add: New_def Let_def moveToNextGeneration_eq accounted_def split: if_splits)

lemma running_accounted: "running F cb \<Longrightarrow> accounted F cb"
proof (induction rule: running.induct)
  case (built now opt0 cb)
  then show ?case by (rule accounted_built)
next
  case (admission F cb now r cb')
  from admission.IH admission.hyps(2) admission.hyps(3) show ?case
    by (rule accounted_admission)
next
  case (completion F cb g ok now r cb' F')
  from completion.IH completion.hyps(2) completion.hyps(3) completion.hyps(4)
    completion.hyps(5)
  show ?case by (rule accounted_completion)
next
  case (reset F cb now r cb')
  from reset.hyps(2) reset.hyps(3) show ?case by (rule accounted_reset)
qed

text \<open>
  In every execution without a collision of tokens, whatever the interleaving of the calls,
  the counts are non-negative and the outcomes counted do not exceed the requests.
\<close>

lemma counts_invariant_without_collision:
  assumes "running F cb"
  shows "counts_invariant cb"
proof -
  have "accounted F cb" using assms by (rule running_accounted)
  then show ?thesis
    unfolding accounted_def counts_invariant_def by linarith
qed

text \<open>
  The example's breaker with its first call admitted at instant 10 and still running is
  such an execution.
\<close>

lemma example_bk_running:
  "running {#2000000000#} (example_bk\<lparr>counts := \<lparr>Request = 1, Success = 0, Failure = 0\<rparr>\<rparr>)"
proof -
  have start: "running {#} example_bk"
    using example_bk_built by (rule running.built)
  have admit: "postStartHook example_bk 10 =
      (Returns (2000000000, None),
       example_bk\<lparr>counts := \<lparr>Request = 1, Success = 0, Failure = 0\<rparr>\<rparr>)"
    by (simp add: postStartHook_def example_bk_def init_opt_def After_def)
  have same: "renews_at_admission example_bk 10 \<longrightarrow>
      generation (example_bk\<lparr>counts := \<lparr>Request = 1, Success = 0, Failure = 0\<rparr>\<rparr>) \<notin># {#}"
    by simp
  from running.admission [OF start admit same] show ?thesis
    by (simp add: held_def)
qed

section \<open>The claims\<close>

subsection \<open>C1: tripping on the failure threshold\<close>

text \<open>
  Claim C1, as the code has it. Let the breaker be Closed with the default trip predicate
  for the threshold \<open>T\<close> and a notification sink, and let the failing calls \<open>pre\<close>, all
  admitted before the generation expires, bring the failure count up to \<open>T\<close>. Recording the
  \<open>T\<close>-th failure does not open the breaker: after those calls it is still Closed and nothing
  has been notified. It opens at the admission phase of the next call, whenever that call
  comes (at \<open>t1\<close>): that call is rejected with \<open>ErrIsOpen\<close>, and exactly one event, from
  Closed to Open with the reason "reach threshold", is notified. The calls \<open>post\<close> made before
  the open state expires are rejected too and notify nothing more.
\<close>

theorem trips_at_next_admission:
  assumes "state bk = Closed"
    and "shouldTrip (opt bk) = Some (\<lambda>c. T \<le> Failure c)"
    and "Failure (counts bk) + int (length pre) = T"
    and "OnStateChange (opt bk) \<noteq> None"
    and "\<forall>(now1, now2) \<in> set pre. \<not> After now1 (generation bk)"
    and "\<forall>(now1, now2) \<in> set post. \<not> After now1 (Add t1 (OpenStateExpiry (opt bk)))"
  shows "(case do_example False pre bk of
            (lines, p, bk') \<Rightarrow>
              p = None \<and> state bk' = Closed \<and> Failure (counts bk') = T \<and>
              notified bk' = notified bk \<and>
              map (\<lambda>(i, c, s, e). s) lines = replicate (length pre) Closed)
       \<and> (case do_example False (pre @ (t1, t2) # post) bk of
            (lines, p, bk') \<Rightarrow>
              p = None \<and> state bk' = Open \<and>
              notified bk' = notified bk @
                [\<lparr>When = t1, From = Closed, To = Open, Reason = ''reach threshold''\<rparr>] \<and>
              map (\<lambda>(i, c, s, e). s) lines =
                replicate (length pre) Closed @ replicate (Suc (length post)) Open \<and>
              map (\<lambda>(i, c, s, e). e = Some ErrIsOpen) lines =
                replicate (length pre) False @ replicate (Suc (length post)) True)"
proof -
  let ?bk1 = "bk\<lparr>counts := (counts bk)\<lparr>Request := Request (counts bk) + int (length pre),
                                         Failure := Failure (counts bk) + int (length pre)\<rparr>\<rparr>"
  let ?bk2 = "?bk1\<lparr>state := Open,
                    counts := \<lparr>Request = 0, Success = 0, Failure = 0\<rparr>,
                    generation := t1 + OpenStateExpiry (opt ?bk1),
                    notified := notified ?bk1 @
                      [\<lparr>When = t1, From = Closed, To = Open, Reason = ReasonReachThreshold\<rparr>]\<rparr>"
  obtain f where sink: "OnStateChange (opt bk) = Some f"
    using assms(4) by blast
  have "Failure (counts bk) + int (length pre) \<le> T"
    using assms(3) by simp
  from do_loop_closed_failures [OF assms(1) assms(2) this assms(5), of 1]
  obtain lines1 where run1: "do_loop 1 False pre bk = (lines1, None, ?bk1)"
      and st1: "map (\<lambda>(i, c, s, e). s) lines1 = replicate (length pre) Closed"
      and er1: "map (\<lambda>(i, c, s, e). e = Some ErrIsOpen) lines1 = replicate (length pre) False"
    by blast
  have first: "case do_example False pre bk of
            (lines, p, bk') \<Rightarrow>
              p = None \<and> state bk' = Closed \<and> Failure (counts bk') = T \<and>
              notified bk' = notified bk \<and>
              map (\<lambda>(i, c, s, e). s) lines = replicate (length pre) Closed"
    using assms(1) assms(3) by (simp add: do_example_def run1 st1)
  have trip: "Do ?bk1 t1 t2 (handler False (1 + int (length pre))) () =
      (Returns (None, Some ErrIsOpen), ?bk2, ())"
    by (rule Do_closed_trip [where trip = "\<lambda>c. T \<le> Failure c" and f = f])
       (simp_all add: assms(1) assms(2) assms(3) sink)
  have open2: "state ?bk2 = Open" by simp
  have wait2: "\<forall>(now1, now2) \<in> set post. \<not> After now1 (generation ?bk2)"
    using assms(6) by (simp add: Add_def)
  from do_loop_open_waiting [OF open2 wait2, of "1 + int (length pre) + 1" False]
  obtain lines2 where run2: "do_loop (1 + int (length pre) + 1) False post ?bk2 = (lines2, None, ?bk2)"
      and st2: "map (\<lambda>(i, c, s, e). s) lines2 = replicate (length post) Open"
      and er2: "map (\<lambda>(i, c, s, e). e = Some ErrIsOpen) lines2 = replicate (length post) True"
    by blast
  have whole: "do_loop 1 False (pre @ (t1, t2) # post) bk =
      (lines1 @ (1 + int (length pre), counts ?bk2, Open, Some ErrIsOpen) # lines2, None, ?bk2)"
    by (simp only: do_loop_append run1 prod.case option.case do_loop.simps trip run2
          outcome.case CircuitBreaker_State_def CircuitBreaker_Counts_def open2)
  have second: "case do_example False (pre @ (t1, t2) # post) bk of
            (lines, p, bk') \<Rightarrow>
              p = None \<and> state bk' = Open \<and>
              notified bk' = notified bk @
                [\<lparr>When = t1, From = Closed, To = Open, Reason = ''reach threshold''\<rparr>] \<and>
              map (\<lambda>(i, c, s, e). s) lines =
                replicate (length pre) Closed @ replicate (Suc (length post)) Open \<and>
              map (\<lambda>(i, c, s, e). e = Some ErrIsOpen) lines =
                replicate (length pre) False @ replicate (Suc (length post)) True"
    unfolding do_example_def whole
    by (simp add: st1 st2 er1 er2 ReasonReachThreshold_def)
  from first second show ?thesis by blast
qed

text \<open>
  The example's breaker (threshold 3): three failing calls leave it Closed; the fourth call
  opens it, the fifth and sixth are rejected, and one event has been notified.
\<close>

theorem trips_at_next_admission_witness:
  "(case do_example False [(10, 11), (20, 21), (30, 31)] example_bk of
      (lines, p, bk') \<Rightarrow>
        p = None \<and> state bk' = Closed \<and> Failure (counts bk') = 3 \<and> notified bk' = [] \<and>
        map (\<lambda>(i, c, s, e). s) lines = [Closed, Closed, Closed])
   \<and> (case do_example False [(10, 11), (20, 21), (30, 31), (40, 41), (50, 51), (60, 61)]
             example_bk of
      (lines, p, bk') \<Rightarrow>
        p = None \<and> state bk' = Open \<and>
        notified bk' = [\<lparr>When = 40, From = Closed, To = Open, Reason = ''reach threshold''\<rparr>] \<and>
        map (\<lambda>(i, c, s, e). s) lines = [Closed, Closed, Closed, Open, Open, Open] \<and>
        map (\<lambda>(i, c, s, e). e = Some ErrIsOpen) lines =
          [False, False, False, True, True, True])"
  using trips_at_next_admission [of example_bk 3 "[(10, 11), (20, 21), (30, 31)]"
      "[(50, 51), (60, 61)]" 40 41]
  by (simp add: example_bk_def init_opt_def After_def Add_def numeral_eq_Suc)

text \<open>
  Claim C1 as stated fails: at the call where the third failure is recorded, with the
  threshold 3, the breaker has not moved to Open and no event has been notified.
\<close>

theorem no_trip_when_threshold_failure_recorded:
  "case do_example False [(10, 11), (20, 21), (30, 31)] example_bk of
     (lines, p, bk') \<Rightarrow>
       FailureThreshold (opt bk') = 3 \<and> Failure (counts bk') = 3 \<and>
       state bk' \<noteq> Open \<and> notified bk' = []"
  by (simp add: do_example_def Do_def postStartHook_def preStopHook_def handler_def
        After_def example_bk_def init_opt_def)

subsection \<open>C2: the half-open request limit\<close>

text \<open>
  Claim C2 does not hold of the code, which admits one request more than the limit: the
  test is \<^verbatim>\<open>cb.counts.Request > cb.opt.HalfOpenRequestLimit\<close>, on the count
  before the increment. With all thresholds and the limit at 1: one failing call, the call
  that opens the breaker, and after the expiry three admissions in a row, the operations
  still running. The first makes the breaker HalfOpen and is admitted, so the limit of 1 is
  reached; the second is admitted all the same, in the same generation; only the third is
  rejected with \<open>ErrHalfOpenButExceedRequestLimit\<close>.
\<close>

theorem halfopen_admits_beyond_limit:
  "case New 0 probe_opt of
     Panics e \<Rightarrow> False
   | Returns bk0 \<Rightarrow>
       (case Do bk0 10 11 (handler False 1) () of (r1, bk1, u1) \<Rightarrow>
        case Do bk1 20 21 (handler False 2) () of (r2, bk2, u2) \<Rightarrow>
        case postStartHook bk2 3000000000 of (a3, bk3) \<Rightarrow>
        case postStartHook bk3 3000000001 of (a4, bk4) \<Rightarrow>
        case postStartHook bk4 3000000002 of (a5, bk5) \<Rightarrow>
          r2 = Returns (None, Some ErrIsOpen) \<and>
          state bk3 = HalfOpen \<and> HalfOpenRequestLimit (opt bk3) = 1 \<and>
          a3 = Returns (5000000000, None) \<and> Request (counts bk3) = 1 \<and>
          a4 = Returns (5000000000, None) \<and> Request (counts bk4) = 2 \<and>
          state bk4 = HalfOpen \<and> generation bk4 = generation bk3 \<and>
          a5 = Returns (5000000000, Some ErrHalfOpenButExceedRequestLimit))"
  by (simp add: New_def probe_opt_def init_opt_def Do_def postStartHook_def preStopHook_def
        handler_def changeState_def moveToNextGeneration_eq After_def)

subsection \<open>C3: the trip predicate\<close>

text \<open>
  Claim C3, as the code has it. The admission phase consults the predicate held in the
  configuration: a Closed breaker is Open after the admission phase exactly when that
  predicate holds of the current counts. But \<^verbatim>\<open>New\<close> always stores the default predicate
  "failure count \<open>\<ge>\<close> failureThreshold", whatever the field \<^verbatim>\<open>shouldTrip\<close> of the
  \<^verbatim>\<open>Option\<close> it is given holds, so a breaker built by \<^verbatim>\<open>New\<close> trips exactly when the
  failure count has reached the failure threshold.
\<close>

theorem New_installs_default_trip:
  assumes "New now0 opt0 = Returns cb0"
  shows "shouldTrip (opt cb0) = Some (\<lambda>c. FailureThreshold (opt cb0) \<le> Failure c)
       \<and> (\<forall>cb now. opt cb = opt cb0 \<and> state cb = Closed \<longrightarrow>
            (state (snd (postStartHook cb now)) = Open
               \<longleftrightarrow> FailureThreshold (opt cb0) \<le> Failure (counts cb)))
       \<and> (\<forall>cb trip now. state cb = Closed \<and> shouldTrip (opt cb) = Some trip \<longrightarrow>
            (state (snd (postStartHook cb now)) = Open \<longleftrightarrow> trip (counts cb)))"
proof -
  have stored: "shouldTrip (opt cb0) = Some (\<lambda>c. FailureThreshold (opt cb0) \<le> Failure c)"
    using assms
    by (auto simp add: New_def Let_def moveToNextGeneration_eq split: if_splits)
  have general: "state (snd (postStartHook cb now)) = Open \<longleftrightarrow> trip (counts cb)"
    if "state cb = Closed" "shouldTrip (opt cb) = Some trip" for cb trip now
  proof (cases "OnStateChange (opt cb)")
    case None
    with that show ?thesis
      by (simp add: postStartHook_def changeState_nil moveToNextGeneration_eq)
  next
    case (Some f)
    with that show ?thesis
      by (simp add: postStartHook_def changeState_notify [where f = f] moveToNextGeneration_eq
            Let_def)
  qed
  from stored general show ?thesis by simp
qed

theorem New_installs_default_trip_witness:
  "New 0 init_opt = Returns example_bk
   \<and> shouldTrip (opt example_bk) = Some (\<lambda>c. 3 \<le> Failure c)
   \<and> state (snd (postStartHook
        (example_bk\<lparr>counts := \<lparr>Request = 3, Success = 0, Failure = 3\<rparr>\<rparr>) 40)) = Open
   \<and> state (snd (postStartHook
        (example_bk\<lparr>counts := \<lparr>Request = 2, Success = 0, Failure = 2\<rparr>\<rparr>) 40)) \<noteq> Open"
proof -
  note built = New_installs_default_trip [OF example_bk_built]
  have threshold: "FailureThreshold (opt example_bk) = 3"
    by (simp add: example_bk_def init_opt_def)
  have stored: "shouldTrip (opt example_bk) = Some (\<lambda>c. 3 \<le> Failure c)"
    using built threshold by simp
  have trips: "state (snd (postStartHook cb 40)) = Open \<longleftrightarrow> 3 \<le> Failure (counts cb)"
    if "opt cb = opt example_bk" "state cb = Closed" for cb
    using built that threshold by simp
  have closed: "state example_bk = Closed"
    by (simp add: example_bk_def)
  show ?thesis
    using example_bk_built stored
      trips [of "example_bk\<lparr>counts := \<lparr>Request = 3, Success = 0, Failure = 3\<rparr>\<rparr>"]
      trips [of "example_bk\<lparr>counts := \<lparr>Request = 2, Success = 0, Failure = 2\<rparr>\<rparr>"]
      closed
    by simp
qed

text \<open>
  Claim C3 as stated fails: a configuration that supplies the predicate "never trip"
  gives the same breaker as the example's configuration, and that breaker trips at three
  failures, where the supplied predicate does not hold.
\<close>

theorem supplied_trip_predicate_ignored:
  "New 0 (init_opt\<lparr>shouldTrip := Some (\<lambda>c. False)\<rparr>) = Returns example_bk
   \<and> state (snd (postStartHook
        (example_bk\<lparr>counts := \<lparr>Request = 3, Success = 0, Failure = 3\<rparr>\<rparr>) 40)) = Open"
  by (simp add: New_def init_opt_def example_bk_def moveToNextGeneration_eq postStartHook_def
        changeState_def After_def)

subsection \<open>C4: the open state\<close>



subsection \<open>C5: outcomes of a stale generation\<close>

text \<open>
  Claim C5. When the token captured at admission differs from the breaker's generation at
  completion time, the completion phase returns the breaker as it was: the counts, the
  state, the generation (and the notifications) are unchanged, for a success and for a
  failure alike.
\<close>

theorem stale_outcome_discarded:
  assumes "currentGeneration \<noteq> generation cb"
  shows "preStopHook cb currentGeneration handleSuccess now = (Returns (), cb)"
  using assms by (simp add: preStopHook_def)

theorem stale_outcome_discarded_witness:
  "(2000000000 :: time) \<noteq> generation example_open_bk
   \<and> preStopHook example_open_bk 2000000000 False 50 = (Returns (), example_open_bk)
   \<and> preStopHook example_open_bk 2000000000 True 50 = (Returns (), example_open_bk)"
  using stale_outcome_discarded [of 2000000000 example_open_bk False 50]
        stale_outcome_discarded [of 2000000000 example_open_bk True 50]
  by (simp add: example_open_bk_def)

subsection \<open>C6: a failing probe\<close>

text \<open>
  Claim C6. While the breaker is HalfOpen, the completion of a failing call whose token is
  the current generation leaves the breaker Open with all three counts at zero and the
  expiry of the open state as its generation; with a notification sink, the completion
  returns and one event, from HalfOpen to Open with the reason "failed on half-open state",
  is notified.
\<close>

theorem halfopen_failure_reopens:
  assumes "state cb = HalfOpen"
  shows "case preStopHook cb (generation cb) False now of
           (r, cb') \<Rightarrow>
             state cb' = Open \<and>
             counts cb' = \<lparr>Request = 0, Success = 0, Failure = 0\<rparr> \<and>
             generation cb' = Add now (OpenStateExpiry (opt cb)) \<and>
             (OnStateChange (opt cb) \<noteq> None \<longrightarrow>
                r = Returns () \<and>
                notified cb' = notified cb @
                  [\<lparr>When = now, From = HalfOpen, To = Open,
                    Reason = ''failed on half-open state''\<rparr>])"
proof (cases "OnStateChange (opt cb)")
  case None
  then show ?thesis
    using assms
    by (simp add: preStopHook_halfopen_failure changeState_nil Add_def)
next
  case (Some f)
  then show ?thesis
    using assms
    by (simp add: preStopHook_halfopen_failure changeState_notify [where f = f] Add_def
          ReasonFailedOnHalfOpenState_def)
qed

theorem halfopen_failure_reopens_witness:
  "case preStopHook
          (example_halfopen_bk 2\<lparr>counts := \<lparr>Request = 3, Success = 2, Failure = 0\<rparr>\<rparr>)
          5000000000 False 3000000007 of
     (r, cb') \<Rightarrow>
       r = Returns () \<and> state cb' = Open \<and>
       counts cb' = \<lparr>Request = 0, Success = 0, Failure = 0\<rparr> \<and>
       generation cb' = 5000000007 \<and>
       notified cb' =
         [\<lparr>When = 40, From = Closed, To = Open, Reason = ''reach threshold''\<rparr>,
          \<lparr>When = 3000000000, From = Open, To = HalfOpen, Reason = ''open state expired''\<rparr>,
          \<lparr>When = 3000000007, From = HalfOpen, To = Open,
            Reason = ''failed on half-open state''\<rparr>]"
  using halfopen_failure_reopens
          [of "example_halfopen_bk 2\<lparr>counts := \<lparr>Request = 3, Success = 2, Failure = 0\<rparr>\<rparr>"
              3000000007]
  by (simp add: example_halfopen_bk_def example_bk_def init_opt_def Add_def
        split: prod.splits)

subsection \<open>C7: closing on the success threshold\<close>

text \<open>
  Claim C7, as the code has it. While the breaker is HalfOpen, a successful completion with
  the current token only adds one to the success count: also when this brings the count to
  the success threshold, the breaker is still HalfOpen and nothing is notified. The
  breaker closes at the admission phase of the next call made while it is still HalfOpen
  with the success count at or above the threshold: that admission leaves the breaker
  Closed with no success and no failure counted; its transition resets the three counts to
  zero and notifies (when there is a sink to notify) one event from HalfOpen to Closed with
  the reason "reach threshold"; the call that made the transition is then admitted as the
  first request of the new generation.
\<close>

theorem halfopen_closes_on_success_threshold:
  assumes "state cb = HalfOpen"
    and "SuccessThreshold (opt cb) \<le> Success (counts cb)"
  shows "(\<forall>cb0 now0. state cb0 = HalfOpen \<longrightarrow>
            preStopHook cb0 (generation cb0) True now0 =
              (Returns (),
               cb0\<lparr>counts := (counts cb0)\<lparr>Success := Success (counts cb0) + 1\<rparr>\<rparr>))
       \<and> state (snd (postStartHook cb now)) = Closed
       \<and> counts (snd (changeState cb now Closed ReasonReachThreshold))
           = \<lparr>Request = 0, Success = 0, Failure = 0\<rparr>
       \<and> Success (counts (snd (postStartHook cb now))) = 0
       \<and> Failure (counts (snd (postStartHook cb now))) = 0
       \<and> (OnStateChange (opt cb) \<noteq> None \<longrightarrow>
            (let cb1 = cb\<lparr>state := Closed,
                           counts := \<lparr>Request = 0, Success = 0, Failure = 0\<rparr>,
                           generation := Add now (GenerationInterval (opt cb)),
                           notified := notified cb @
                             [\<lparr>When = now, From = HalfOpen, To = Closed,
                               Reason = ''reach threshold''\<rparr>]\<rparr>
             in changeState cb now Closed ReasonReachThreshold = (Returns (), cb1) \<and>
                postStartHook cb now =
                  (Returns (generation cb1, None),
                   cb1\<lparr>counts := \<lparr>Request = 1, Success = 0, Failure = 0\<rparr>\<rparr>)))"
proof -
  have completion: "\<forall>cb0 now0. state cb0 = HalfOpen \<longrightarrow>
            preStopHook cb0 (generation cb0) True now0 =
              (Returns (),
               cb0\<lparr>counts := (counts cb0)\<lparr>Success := Success (counts cb0) + 1\<rparr>\<rparr>)"
    by (simp add: preStopHook_def)
  have admission: "state (snd (postStartHook cb now)) = Closed
       \<and> counts (snd (changeState cb now Closed ReasonReachThreshold))
           = \<lparr>Request = 0, Success = 0, Failure = 0\<rparr>
       \<and> Success (counts (snd (postStartHook cb now))) = 0
       \<and> Failure (counts (snd (postStartHook cb now))) = 0
       \<and> (OnStateChange (opt cb) \<noteq> None \<longrightarrow>
            (let cb1 = cb\<lparr>state := Closed,
                           counts := \<lparr>Request = 0, Success = 0, Failure = 0\<rparr>,
                           generation := Add now (GenerationInterval (opt cb)),
                           notified := notified cb @
                             [\<lparr>When = now, From = HalfOpen, To = Closed,
                               Reason = ''reach threshold''\<rparr>]\<rparr>
             in changeState cb now Closed ReasonReachThreshold = (Returns (), cb1) \<and>
                postStartHook cb now =
                  (Returns (generation cb1, None),
                   cb1\<lparr>counts := \<lparr>Request = 1, Success = 0, Failure = 0\<rparr>\<rparr>)))"
  proof (cases "OnStateChange (opt cb)")
    case None
    then show ?thesis
      using assms by (simp add: postStartHook_def changeState_nil)
  next
    case (Some f)
    then show ?thesis
      using assms(1)
      by (simp add: postStartHook_halfopen_close [OF assms(1) assms(2) Some]
            changeState_notify [OF Some] Let_def Add_def ReasonReachThreshold_def)
  qed
  from completion admission show ?thesis by (rule conjI)
qed

text \<open>
  The example's half-open breaker with five probes admitted and four succeeded: the
  completion of the fifth success, at instant 3000000008, leaves it HalfOpen with five
  successes and the two earlier events; the next call, at instant 3000000009, closes it.
\<close>

theorem halfopen_closes_on_success_threshold_witness:
  "preStopHook (example_halfopen_bk 4\<lparr>counts := \<lparr>Request = 5, Success = 4, Failure = 0\<rparr>\<rparr>)
       5000000000 True 3000000008
     = (Returns (), example_halfopen_bk 5)
   \<and> state (example_halfopen_bk 5) = HalfOpen
   \<and> postStartHook (example_halfopen_bk 5) 3000000009
     = (Returns (5000000009, None),
        example_bk\<lparr>generation := 5000000009,
          counts := \<lparr>Request = 1, Success = 0, Failure = 0\<rparr>,
          notified :=
            [\<lparr>When = 40, From = Closed, To = Open, Reason = ''reach threshold''\<rparr>,
             \<lparr>When = 3000000000, From = Open, To = HalfOpen, Reason = ''open state expired''\<rparr>,
             \<lparr>When = 3000000009, From = HalfOpen, To = Closed, Reason = ''reach threshold''\<rparr>]\<rparr>)"
proof -
  let ?probing = "example_halfopen_bk 4\<lparr>counts := \<lparr>Request = 5, Success = 4, Failure = 0\<rparr>\<rparr>"
  note closes = halfopen_closes_on_success_threshold [of "example_halfopen_bk 5" 3000000009]
  have halfopen: "state (example_halfopen_bk 5) = HalfOpen"
    by (simp add: example_halfopen_bk_def)
  have reached: "SuccessThreshold (opt (example_halfopen_bk 5)) \<le> Success (counts (example_halfopen_bk 5))"
    by (simp add: example_halfopen_bk_def example_bk_def init_opt_def)
  have sink: "OnStateChange (opt (example_halfopen_bk 5)) \<noteq> None"
    by (simp add: example_halfopen_bk_def example_bk_def init_opt_def)
  have probing: "state ?probing = HalfOpen" "generation ?probing = 5000000000"
    by (simp_all add: example_halfopen_bk_def)
  from closes [OF halfopen reached, THEN conjunct1, rule_format, OF probing(1), of 3000000008]
  have first: "preStopHook ?probing 5000000000 True 3000000008 = (Returns (), example_halfopen_bk 5)"
    by (simp add: example_halfopen_bk_def)
  from closes [OF halfopen reached] sink
  have second: "postStartHook (example_halfopen_bk 5) 3000000009
     = (Returns (5000000009, None),
        example_bk\<lparr>generation := 5000000009,
          counts := \<lparr>Request = 1, Success = 0, Failure = 0\<rparr>,
          notified :=
            [\<lparr>When = 40, From = Closed, To = Open, Reason = ''reach threshold''\<rparr>,
             \<lparr>When = 3000000000, From = Open, To = HalfOpen, Reason = ''open state expired''\<rparr>,
             \<lparr>When = 3000000009, From = HalfOpen, To = Closed, Reason = ''reach threshold''\<rparr>]\<rparr>)"
    by (simp add: example_halfopen_bk_def example_bk_def init_opt_def Add_def Let_def)
  from first halfopen second show ?thesis by simp
qed

text \<open>
  Claim C7 as stated fails: five successful calls in a row after the expiry, with the
  success threshold 5, bring the success count to the threshold, and the breaker has not
  moved to Closed: it is HalfOpen, and the only events notified are the earlier two.
\<close>

theorem no_close_when_threshold_success_recorded:
  "case do_example True
          [(3000000000, 3000000001), (3000000002, 3000000003), (3000000004, 3000000005),
           (3000000006, 3000000007), (3000000008, 3000000009)] example_open_bk of
     (lines, p, bk') \<Rightarrow>
       p = None \<and> SuccessThreshold (opt bk') = 5 \<and> Success (counts bk') = 5 \<and>
       state bk' = HalfOpen \<and> state bk' \<noteq> Closed \<and>
       notified bk' =
         [\<lparr>When = 40, From = Closed, To = Open, Reason = ''reach threshold''\<rparr>,
          \<lparr>When = 3000000000, From = Open, To = HalfOpen, Reason = ''open state expired''\<rparr>]"
  by (simp add: do_example_def Do_def postStartHook_def preStopHook_def handler_def
        changeState_def moveToNextGeneration_eq After_def example_bk_def example_open_bk_def
        init_opt_def ReasonOpenStateExpired_def)

subsection \<open>C8: results and panics pass through\<close>

text \<open>
  Claim C8. For an admitted call, \<open>Do\<close> gives the caller the outcome of the wrapped
  operation itself: the pair it returned, unchanged, or the panic it raised, with the same
  value. In both cases the breaker is the one the completion phase leaves, run with the
  captured token on the breaker as the operation left it; for a panic it is run as for a
  failure, which adds one to the failure count when the token is current. The one
  completion that cannot return is the transition of a half-open breaker whose
  notification sink is nil (claim C9), and it is set apart in the first part. In every
  case, what \<open>Do\<close> returns is the pair the operation returned, and a panic of the
  operation leaves \<open>Do\<close> as a panic: no fault is swallowed.
\<close>

theorem admitted_call_passes_outcome_through:
  assumes "postStartHook cb now1 = (Returns (gen, None), cb1)"
    and "handle cb1 w = (out, cb2, w')"
  shows "(OnStateChange (opt cb2) \<noteq> None \<or> state cb2 \<noteq> HalfOpen \<longrightarrow>
            Do cb now1 now2 handle w =
              (out,
               snd (preStopHook cb2 gen
                      (case out of Returns (resp, err) \<Rightarrow> err = None | Panics e \<Rightarrow> False) now2),
               w'))
       \<and> (\<forall>p. fst (Do cb now1 now2 handle w) = Returns p \<longrightarrow> out = Returns p)
       \<and> (\<forall>e. out = Panics e \<longrightarrow> (\<exists>e'. fst (Do cb now1 now2 handle w) = Panics e'))
       \<and> (gen = generation cb2 \<and> state cb2 \<noteq> HalfOpen \<longrightarrow>
            counts (snd (preStopHook cb2 gen False now2)) =
              (counts cb2)\<lparr>Failure := Failure (counts cb2) + 1\<rparr>)"
proof -
  have either: "fst (Do cb now1 now2 handle w) = out \<or>
      (\<exists>e'. fst (Do cb now1 now2 handle w) = Panics e')"
    using assms(1) assms(2) by (rule Do_admitted_outcome)
  show ?thesis
  proof (intro conjI impI allI)
  assume sink: "OnStateChange (opt cb2) \<noteq> None \<or> state cb2 \<noteq> HalfOpen"
  have ok: "\<And>b. fst (preStopHook cb2 gen b now2) = Returns ()"
    using sink by (rule preStopHook_returns)
  show "Do cb now1 now2 handle w =
           (out,
            snd (preStopHook cb2 gen
                   (case out of Returns (resp, err) \<Rightarrow> err = None | Panics e \<Rightarrow> False) now2),
            w')"
  proof (cases out)
    case (Returns pair)
    obtain resp err where pair: "pair = (resp, err)" by (cases pair)
    obtain r cb3 where stop: "preStopHook cb2 gen (err = None) now2 = (r, cb3)"
      by (cases "preStopHook cb2 gen (err = None) now2")
    with ok [of "err = None"] have "r = Returns ()" by simp
    with stop show ?thesis
      by (simp add: Do_def assms(1) assms(2) Returns pair)
  next
    case (Panics e)
    obtain r cb3 where stop: "preStopHook cb2 gen False now2 = (r, cb3)"
      by (cases "preStopHook cb2 gen False now2")
    with ok [of False] have "r = Returns ()" by simp
    with stop show ?thesis
      by (simp add: Do_def assms(1) assms(2) Panics recovered_def)
  qed
next
  fix p
  assume "fst (Do cb now1 now2 handle w) = Returns p"
  with either show "out = Returns p"
    by auto
next
  fix e
  assume "out = Panics e"
  with either show "\<exists>e'. fst (Do cb now1 now2 handle w) = Panics e'"
    by auto
next
  assume "gen = generation cb2 \<and> state cb2 \<noteq> HalfOpen"
  then show "counts (snd (preStopHook cb2 gen False now2)) =
              (counts cb2)\<lparr>Failure := Failure (counts cb2) + 1\<rparr>"
    by (cases "state cb2") (simp_all add: preStopHook_def)
  qed
qed

theorem admitted_call_passes_outcome_through_witness:
  "Do example_bk 10 11 (handler False 7) ()
     = (Returns (None, Some (Errorf ''manual error times: %d'' [7])),
        example_bk\<lparr>counts := \<lparr>Request = 1, Success = 0, Failure = 1\<rparr>\<rparr>, ())
   \<and> Do example_bk 10 11 (panicking ''boom'') ()
     = (Panics (PanicValue ''boom''),
        example_bk\<lparr>counts := \<lparr>Request = 1, Success = 0, Failure = 1\<rparr>\<rparr>, ())"
proof -
  let ?bk1 = "example_bk\<lparr>counts := \<lparr>Request = 1, Success = 0, Failure = 0\<rparr>\<rparr>"
  let ?bk2 = "example_bk\<lparr>counts := \<lparr>Request = 1, Success = 0, Failure = 1\<rparr>\<rparr>"
  have admitted: "postStartHook example_bk 10 = (Returns (2000000000, None), ?bk1)"
    by (simp add: postStartHook_def example_bk_def init_opt_def After_def)
  have sink: "OnStateChange (opt ?bk1) \<noteq> None \<or> state ?bk1 \<noteq> HalfOpen"
    by (simp add: example_bk_def)
  have stop: "snd (preStopHook ?bk1 2000000000 False 11) = ?bk2"
    by (simp add: preStopHook_def example_bk_def)
  have fails: "handler False 7 ?bk1 ()
      = (Returns (None, Some (Errorf ''manual error times: %d'' [7])), ?bk1, ())"
    by (simp add: handler_def)
  have panics: "panicking ''boom'' ?bk1 ()
      = (Panics (PanicValue ''boom''), ?bk1, ())"
    by (simp add: panicking_def)
  from admitted_call_passes_outcome_through
         [where handle = "handler False 7" and w = "()" and ?now2.0 = 11, OF admitted fails,
          THEN conjunct1, rule_format, OF sink]
  have first: "Do example_bk 10 11 (handler False 7) ()
     = (Returns (None, Some (Errorf ''manual error times: %d'' [7])), ?bk2, ())"
    by (simp add: stop)
  from admitted_call_passes_outcome_through
         [where handle = "panicking ''boom''" and w = "()" and ?now2.0 = 11, OF admitted panics,
          THEN conjunct1, rule_format, OF sink]
  have second: "Do example_bk 10 11 (panicking ''boom'') ()
     = (Panics (PanicValue ''boom''), ?bk2, ())"
    by (simp add: stop)
  from first second show ?thesis by simp
qed

subsection \<open>C9: a nil notification sink\<close>

text \<open>
  Claim C9. With a nil \<^verbatim>\<open>OnStateChange\<close>, \<open>changeState\<close> panics, whatever the transition,
  and so does every operation that takes one: \<open>Reset\<close>; \<open>Do\<close> when it trips the Closed
  breaker, when the open state has expired, and when the success threshold closes the
  half-open breaker; the completion of a failing probe, and \<open>Do\<close> around a failing probe.
\<close>

theorem nil_sink_panics_on_transition:
  assumes "OnStateChange (opt cb) = None"
  shows "fst (changeState cb now newState reason) = Panics NilFuncCall
       \<and> fst (Reset cb now) = Panics NilFuncCall
       \<and> (state cb = Closed \<and> shouldTrip (opt cb) = Some trip \<and> trip (counts cb) \<longrightarrow>
            fst (Do cb now now2 handle w) = Panics NilFuncCall)
       \<and> (state cb = Open \<and> After now (generation cb) \<longrightarrow>
            fst (Do cb now now2 handle w) = Panics NilFuncCall)
       \<and> (state cb = HalfOpen \<and> SuccessThreshold (opt cb) \<le> Success (counts cb) \<longrightarrow>
            fst (Do cb now now2 handle w) = Panics NilFuncCall)
       \<and> (state cb = HalfOpen \<longrightarrow>
            fst (preStopHook cb (generation cb) False now) = Panics NilFuncCall)
       \<and> (state cb = HalfOpen \<and> Success (counts cb) < SuccessThreshold (opt cb) \<and>
          \<not> After now (generation cb) \<and> Request (counts cb) \<le> HalfOpenRequestLimit (opt cb) \<longrightarrow>
            fst (Do cb now now2 (handler False i) w) = Panics NilFuncCall)"
proof (intro conjI impI)
  show "fst (changeState cb now newState reason) = Panics NilFuncCall"
    by (simp add: changeState_nil [OF assms])
  show "fst (Reset cb now) = Panics NilFuncCall"
    by (simp add: Reset_def changeState_nil [OF assms])
next
  assume "state cb = Closed \<and> shouldTrip (opt cb) = Some trip \<and> trip (counts cb)"
  then have "fst (postStartHook cb now) = Panics NilFuncCall"
    by (simp add: postStartHook_def changeState_nil [OF assms])
  then show "fst (Do cb now now2 handle w) = Panics NilFuncCall"
    by (rule Do_panics_at_admission)
next
  assume "state cb = Open \<and> After now (generation cb)"
  then have "fst (postStartHook cb now) = Panics NilFuncCall"
    by (simp add: postStartHook_def changeState_nil [OF assms])
  then show "fst (Do cb now now2 handle w) = Panics NilFuncCall"
    by (rule Do_panics_at_admission)
next
  assume "state cb = HalfOpen \<and> SuccessThreshold (opt cb) \<le> Success (counts cb)"
  then have "fst (postStartHook cb now) = Panics NilFuncCall"
    by (simp add: postStartHook_def changeState_nil [OF assms])
  then show "fst (Do cb now now2 handle w) = Panics NilFuncCall"
    by (rule Do_panics_at_admission)
next
  assume "state cb = HalfOpen"
  then show "fst (preStopHook cb (generation cb) False now) = Panics NilFuncCall"
    using assms by (simp add: preStopHook_halfopen_failure changeState_nil)
next
  assume probe: "state cb = HalfOpen \<and> Success (counts cb) < SuccessThreshold (opt cb) \<and>
          \<not> After now (generation cb) \<and> Request (counts cb) \<le> HalfOpenRequestLimit (opt cb)"
  let ?cb1 = "cb\<lparr>counts := (counts cb)\<lparr>Request := Request (counts cb) + 1\<rparr>\<rparr>"
  have admit: "postStartHook cb now = (Returns (generation cb, None), ?cb1)"
    using probe by (simp add: postStartHook_def)
  have sink1: "OnStateChange (opt ?cb1) = None" using assms by simp
  obtain cb3 where stop: "preStopHook ?cb1 (generation cb) False now2 = (Panics NilFuncCall, cb3)"
      and opened: "state cb3 = Open"
    using probe assms by (simp add: preStopHook_def changeState_nil)
  obtain r cb4 where again:
      "(recovered cb3 (generation cb) NilFuncCall now2
          :: (unit option \<times> error option) outcome \<times> CircuitBreaker) = (r, cb4)"
    by (cases "recovered cb3 (generation cb) NilFuncCall now2
          :: (unit option \<times> error option) outcome \<times> CircuitBreaker")
  have "fst (recovered cb3 (generation cb) NilFuncCall now2
          :: (unit option \<times> error option) outcome \<times> CircuitBreaker) = Panics NilFuncCall"
    using opened by (rule recovered_after_open)
  with again have "r = Panics NilFuncCall" by simp
  with again show "fst (Do cb now now2 (handler False i) w) = Panics NilFuncCall"
    by (simp add: Do_def admit handler_def stop)
qed

text \<open>
  The example's configuration with the sink left nil: \<open>New\<close> returns, and then \<open>Reset\<close>,
  the very first trip, the expiry of the open state and a failing probe all panic.
\<close>

theorem nil_sink_panics_on_transition_witness:
  "New 0 (init_opt\<lparr>OnStateChange := None\<rparr>) = Returns nil_sink_bk
   \<and> fst (Reset nil_sink_bk 5) = Panics NilFuncCall
   \<and> fst (Do (nil_sink_bk\<lparr>counts := \<lparr>Request = 3, Success = 0, Failure = 3\<rparr>\<rparr>) 40 41
            (handler False 4) ()) = Panics NilFuncCall
   \<and> fst (Do (nil_sink_bk\<lparr>state := Open\<rparr>) 2000000001 2000000002 (handler True 1) ())
       = Panics NilFuncCall
   \<and> fst (Do (nil_sink_bk\<lparr>state := HalfOpen\<rparr>) 50 51 (handler False 1) ())
       = Panics NilFuncCall"
  using nil_sink_panics_on_transition [of nil_sink_bk 5 Closed "''manually reset''"
          "\<lambda>c. 3 \<le> Failure c" 0 "handler False 4" "()" 0]
        nil_sink_panics_on_transition
          [of "nil_sink_bk\<lparr>counts := \<lparr>Request = 3, Success = 0, Failure = 3\<rparr>\<rparr>" 40 Closed "''''"
              "\<lambda>c. 3 \<le> Failure c" 41 "handler False 4" "()" 0]
        nil_sink_panics_on_transition
          [of "nil_sink_bk\<lparr>state := Open\<rparr>" 2000000001 Closed "''''"
              "\<lambda>c. 3 \<le> Failure c" 2000000002 "handler True 1" "()" 0]
        nil_sink_panics_on_transition
          [of "nil_sink_bk\<lparr>state := HalfOpen\<rparr>" 50 Closed "''''"
              "\<lambda>c. 3 \<le> Failure c" 51 "handler False 1" "()" 1]
  by (simp add: nil_sink_bk_def example_bk_def init_opt_def After_def New_def
        moveToNextGeneration_eq)

subsection \<open>C10: the counts of a generation\<close>

text \<open>
  Claim C10 does not hold of the code: the generation token is the expiry instant, and a
  later generation can have the expiry of an earlier one. With a generation interval of
  10 s and an open-state expiry of 5 s, the breaker built at instant 0: a call is admitted
  at 1 s with the token 10 s and is still running; a call fails at 2 s; the call at
  5 s opens the breaker, whose new generation is again the instant 10 s, with all counts
  at zero. The first call then completes at 7 s with its token, which is the current
  generation, and its success is counted: the counts are 0 requests and 1 success.
\<close>

theorem stale_outcome_counted_when_tokens_collide:
  "case New 0 collide_opt of
     Panics e \<Rightarrow> False
   | Returns bk0 \<Rightarrow>
       (case postStartHook bk0 1000000000 of (a1, bk1) \<Rightarrow>
        case Do bk1 2000000000 2000000001 (handler False 1) () of (r2, bk2, u2) \<Rightarrow>
        case Do bk2 5000000000 5000000001 (handler False 2) () of (r3, bk3, u3) \<Rightarrow>
        case preStopHook bk3 10000000000 True 7000000000 of (r4, bk4) \<Rightarrow>
          a1 = Returns (10000000000, None) \<and> state bk2 = Closed \<and>
          r3 = Returns (None, Some ErrIsOpen) \<and>
          state bk3 = Open \<and> generation bk3 = 10000000000 \<and>
          counts bk3 = \<lparr>Request = 0, Success = 0, Failure = 0\<rparr> \<and>
          r4 = Returns () \<and> state bk4 = Open \<and>
          counts bk4 = \<lparr>Request = 0, Success = 1, Failure = 0\<rparr> \<and>
          \<not> counts_invariant bk4)"
  by (simp add: New_def collide_opt_def init_opt_def Do_def postStartHook_def preStopHook_def
        handler_def changeState_def moveToNextGeneration_eq After_def counts_invariant_def)

end
